theory Spec2Isabelle
  imports Complex_Main "HOL-Library.Multiset"
begin

section \<open>JavaScript values\<close>

text \<open>
  A JavaScript number is an IEEE double: a finite value, one of the two infinities, or
  not-a-number.  The finite values are embedded in the reals; every comparison the
  dashboard makes is against a constant, and is exact on finite doubles.  The one arithmetic
  operation on numbers, the product \<open>ts * 1000\<close>, rounds its result to a double.
\<close>

datatype jsnum = NaN | NegInf | Fin real | PosInf

text \<open>The relational operator \<open><\<close>: false as soon as one side is not-a-number.\<close>

fun js_lt :: "jsnum \<Rightarrow> jsnum \<Rightarrow> bool" where
  "js_lt NaN y = False"
| "js_lt x NaN = False"
| "js_lt x NegInf = False"
| "js_lt PosInf y = False"
| "js_lt NegInf y = True"
| "js_lt (Fin a) PosInf = True"
| "js_lt (Fin a) (Fin b) = (a < b)"

definition js_gt :: "jsnum \<Rightarrow> jsnum \<Rightarrow> bool" where
  "js_gt x y = js_lt y x"

section \<open>Chart points and severity categories\<close>

text \<open>An element of \<open>chartData\<close>: \<open>{ timeLabel: string; uv: number }\<close>.\<close>

record chart_point =
  timeLabel :: string
  uv :: jsnum

datatype category = Low | Moderate | High | VeryHigh | Extreme

text \<open>\<open>getCategory\<close>: the first threshold the value is below, else \<open>extreme\<close>.\<close>

definition getCategory :: "jsnum \<Rightarrow> category" where
  "getCategory v =
     (if js_lt v (Fin 3) then Low
      else if js_lt v (Fin 6) then Moderate
      else if js_lt v (Fin 8) then High
      else if js_lt v (Fin 11) then VeryHigh
      else Extreme)"

section \<open>Segmentation\<close>

text \<open>
  \<open>Array.prototype.slice(a, b)\<close> for non-negative integer bounds: the elements at the
  indices \<open>a \<le> k < b\<close> that exist, none when \<open>b \<le> a\<close>.
\<close>

definition slice :: "'a list \<Rightarrow> nat \<Rightarrow> nat \<Rightarrow> 'a list" where
  "slice xs a b = take (b - a) (drop a xs)"

text \<open>
  \<open>segments[segments.length - 1].push(x)\<close>.  The source calls it under the guard
  \<open>segments.length > 0\<close> only; every segment is a fresh array made by \<open>slice\<close>, so the
  mutation touches nothing else.
\<close>

definition pushLast :: "'a list list \<Rightarrow> 'a \<Rightarrow> 'a list list" where
  "pushLast segments x = butlast segments @ [last segments @ [x]]"

text \<open>
  The \<open>for\<close> loop of \<open>splitIntoSegments\<close>, one call per evaluation of the loop test, on the
  loop variables \<open>i\<close>, \<open>start\<close>, \<open>currentCat\<close> and \<open>segments\<close>.  It returns the \<open>start\<close> and
  \<open>segments\<close> the code after the loop reads.
\<close>

function segLoop ::
  "chart_point list \<Rightarrow> nat \<Rightarrow> nat \<Rightarrow> category \<Rightarrow> chart_point list list
     \<Rightarrow> nat \<times> chart_point list list" where
  "segLoop data i start currentCat segments =
     (if i < length data then
        (let cat = getCategory (uv (data ! i)) in
         if cat \<noteq> currentCat then
           (let seg = slice data start (i + 1) in
            if length seg = 1 then
              (if length segments > 0 then
                 segLoop data (i + 1) (i + 1) cat (pushLast segments (seg ! 0))
               else if i + 1 < length data then
                 segLoop data (i + 2) (i + 2) cat (segments @ [seg @ [data ! (i + 1)]])
               else
                 segLoop data (i + 1) (i + 1) cat (segments @ [seg]))
            else
              segLoop data (i + 1) (i + 1) cat (segments @ [seg]))
         else segLoop data (i + 1) start currentCat segments)
      else (start, segments))"
  by pat_completeness auto
termination
  by (relation "measure (\<lambda>(data, i, start, currentCat, segments). length data - i)") auto

declare segLoop.simps [simp del]

text \<open>\<open>splitIntoSegments\<close>: the empty-input guard, the loop, then the trailing run.\<close>

definition splitIntoSegments :: "chart_point list \<Rightarrow> chart_point list list" where
  "splitIntoSegments data =
     (if length data = 0 then []
      else
        (case segLoop data 1 0 (getCategory (uv (data ! 0))) [] of
           (start, segments) \<Rightarrow>
             if start < length data then
               (let lastSeg = slice data start (length data) in
                if length lastSeg = 1 \<and> length segments > 0
                then pushLast segments (lastSeg ! 0)
                else segments @ [lastSeg])
             else segments))"

text \<open>
  The loop invariant: the completed segments are a partition of the first \<open>start\<close> points,
  there is a completed segment as soon as \<open>start\<close> has moved, and each one has two points
  or more.
\<close>

definition segInv :: "chart_point list \<Rightarrow> nat \<Rightarrow> chart_point list list \<Rightarrow> bool" where
  "segInv data start segments \<longleftrightarrow>
     concat segments = take start data \<and> start \<le> length data \<and>
     (segments = [] \<longrightarrow> start = 0) \<and> (\<forall>s\<in>set segments. 2 \<le> length s)"

text \<open>What the result satisfies: it partitions the input, into segments of two points or
  more unless the whole result is a single one-point segment.\<close>

definition segPost :: "chart_point list \<Rightarrow> chart_point list list \<Rightarrow> bool" where
  "segPost data segs \<longleftrightarrow>
     concat segs = data \<and> ((\<forall>s\<in>set segs. 2 \<le> length s) \<or> (\<exists>p. segs = [[p]]))"

text \<open>
  Point \<open>n - 1\<close> of the series is a category change: it has a point before it, of another
  category.  The ends of the completed segments are such points.  The loop keeps, besides
  \<open>segInv\<close>: \<open>currentCat\<close> is the category of the point before the run (of the first point
  when the run starts the series), and every point of the run scanned so far has it.
\<close>

definition changeAt :: "chart_point list \<Rightarrow> nat \<Rightarrow> bool" where
  "changeAt data n \<longleftrightarrow>
     2 \<le> n \<and> getCategory (uv (data ! (n - 1))) \<noteq> getCategory (uv (data ! (n - 2)))"

definition endsAtChanges :: "chart_point list \<Rightarrow> chart_point list list \<Rightarrow> bool" where
  "endsAtChanges data segs \<longleftrightarrow>
     (\<forall>k<length segs. changeAt data (length (concat (take (Suc k) segs))))"

definition runInv ::
  "chart_point list \<Rightarrow> nat \<Rightarrow> nat \<Rightarrow> category \<Rightarrow> chart_point list list \<Rightarrow> bool" where
  "runInv data i start currentCat segments \<longleftrightarrow>
     segInv data start segments \<and> start \<le> i \<and> 1 \<le> i \<and>
     currentCat = getCategory (uv (data ! (start - 1))) \<and>
     (\<forall>j. start \<le> j \<and> j < i \<longrightarrow> getCategory (uv (data ! j)) = currentCat) \<and>
     endsAtChanges data segments"

text \<open>A four-point series with one category change, from \<open>low\<close> to \<open>high\<close>, after its first point.\<close>

definition chartLowHigh :: "chart_point list" where
  "chartLowHigh =
     [\<lparr>timeLabel = ''09:00'', uv = Fin 1\<rparr>, \<lparr>timeLabel = ''10:00'', uv = Fin 7\<rparr>,
      \<lparr>timeLabel = ''11:00'', uv = Fin 7\<rparr>, \<lparr>timeLabel = ''12:00'', uv = Fin 7\<rparr>]"

text \<open>A three-point series whose category changes at every point.\<close>

definition chartZigZag :: "chart_point list" where
  "chartZigZag =
     [\<lparr>timeLabel = ''09:00'', uv = Fin 1\<rparr>, \<lparr>timeLabel = ''10:00'', uv = Fin 7\<rparr>,
      \<lparr>timeLabel = ''11:00'', uv = Fin 2\<rparr>]"

section \<open>JSON values and the operators applied to them\<close>

text \<open>
  The response body and every raw forecast record are values produced by \<open>response.json()\<close>
  and typed \<open>any\<close>.  An object is the list of its entries as parsed (keys distinct).
\<close>

datatype json =
  JNull | JBool bool | JNum jsnum | JStr string | JArr "json list" | JObj "(string \<times> json) list"

text \<open>
  Property access \<open>v.k\<close> on a value that is not \<open>null\<close>, for the keys the dashboard reads:
  \<open>None\<close> is \<open>undefined\<close>.  Only objects carry these keys.
\<close>

fun getProp :: "json \<Rightarrow> string \<Rightarrow> json option" where
  "getProp (JObj kvs) k = map_of kvs k"
| "getProp v k = None"

text \<open>Optional chaining \<open>a?.k\<close>: \<open>undefined\<close> when \<open>a\<close> is \<open>null\<close> or \<open>undefined\<close>.\<close>

definition propOpt :: "json option \<Rightarrow> string \<Rightarrow> json option" where
  "propOpt a k = (case a of None \<Rightarrow> None | Some JNull \<Rightarrow> None | Some v \<Rightarrow> getProp v k)"

text \<open>Nullish coalescing \<open>a ?? b\<close>, and \<open>a ?? null\<close>.\<close>

definition nullishOr :: "json option \<Rightarrow> json option \<Rightarrow> json option" where
  "nullishOr a b = (case a of None \<Rightarrow> b | Some JNull \<Rightarrow> b | Some v \<Rightarrow> Some v)"

definition orNull :: "json option \<Rightarrow> json" where
  "orNull a = (case a of None \<Rightarrow> JNull | Some v \<Rightarrow> v)"

text \<open>Truthiness, as \<open>!v\<close>, \<open>v && \<dots>\<close> and \<open>v || \<dots>\<close> test it.\<close>

fun truthy :: "json \<Rightarrow> bool" where
  "truthy JNull = False"
| "truthy (JBool b) = b"
| "truthy (JNum n) = (n \<noteq> NaN \<and> n \<noteq> Fin 0)"
| "truthy (JStr s) = (s \<noteq> [])"
| "truthy (JArr xs) = True"
| "truthy (JObj kvs) = True"

definition truthyOpt :: "json option \<Rightarrow> bool" where
  "truthyOpt a = (case a of None \<Rightarrow> False | Some v \<Rightarrow> truthy v)"

text \<open>\<open>Array.isArray\<close>, and \<open>typeof v === "object"\<close> on a truthy value.\<close>

fun isArray :: "json option \<Rightarrow> bool" where
  "isArray (Some (JArr xs)) = True"
| "isArray a = False"

fun isObject :: "json \<Rightarrow> bool" where
  "isObject (JArr xs) = True"
| "isObject (JObj kvs) = True"
| "isObject v = False"

text \<open>
  Rounding of a real to the nearest double, ties to the even significand, as every
  arithmetic operation on numbers does it.  \<open>doubleUlp x\<close> is the spacing of the doubles
  around \<open>x\<close> (52 fraction bits; exponents below \<open>-1022\<close> are subnormal); a rounded magnitude of
  \<open>2 ^ 1024\<close> or more overflows to an infinity.
\<close>

definition roundHalfEven :: "real \<Rightarrow> int" where
  "roundHalfEven q =
     (let f = \<lfloor>q\<rfloor> in
      if q - of_int f < 1 / 2 then f
      else if 1 / 2 < q - of_int f then f + 1
      else if even f then f else f + 1)"

definition doubleUlp :: "real \<Rightarrow> real" where
  "doubleUlp x = 2 powr of_int (max \<lfloor>log 2 \<bar>x\<bar>\<rfloor> (- 1022) - 52)"

definition nearestDouble :: "real \<Rightarrow> real" where
  "nearestDouble x =
     (if x = 0 then 0 else of_int (roundHalfEven (x / doubleUlp x)) * doubleUlp x)"

definition roundToDouble :: "real \<Rightarrow> jsnum" where
  "roundToDouble x =
     (let r = nearestDouble x in
      if 2 ^ 1024 \<le> r then PosInf else if r \<le> - (2 ^ 1024) then NegInf else Fin r)"

text \<open>Multiplication of numbers: the exact product of finite values, rounded to a double.\<close>

fun js_sign :: "jsnum \<Rightarrow> int" where
  "js_sign (Fin r) = (if r < 0 then - 1 else if r = 0 then 0 else 1)"
| "js_sign PosInf = 1"
| "js_sign NegInf = - 1"
| "js_sign NaN = 0"

fun js_mul :: "jsnum \<Rightarrow> jsnum \<Rightarrow> jsnum" where
  "js_mul NaN y = NaN"
| "js_mul x NaN = NaN"
| "js_mul (Fin a) (Fin b) = roundToDouble (a * b)"
| "js_mul x y =
     (if js_sign x * js_sign y = 0 then NaN
      else if js_sign x * js_sign y > 0 then PosInf else NegInf)"

section \<open>The built-in functions of the platform\<close>

text \<open>
  The dashboard calls built-ins whose results depend on the engine, the locale and the time
  zone.  They are parameters of the model:
  \<^item> \<open>dateParse\<close>: the time value, in milliseconds since the epoch, of \<open>new Date(s)\<close> for a
    string \<open>s\<close>; \<open>None\<close> is an invalid date (\<open>getTime()\<close> is not-a-number);
  \<^item> \<open>toISOString\<close>: \<open>Date.prototype.toISOString\<close> on a valid time value;
  \<^item> \<open>stringToNumber\<close>: \<open>Number(s)\<close> for a string \<open>s\<close>;
  \<^item> \<open>arrayToString\<close>: \<open>Array.prototype.toString\<close>, the primitive an array is turned into;
  \<^item> \<open>toLocaleTimeString\<close>: the \<open>en-AU\<close> hour and minute label of a date.
\<close>

record platform =
  dateParse :: "string \<Rightarrow> int option"
  toISOString :: "int \<Rightarrow> string"
  stringToNumber :: "string \<Rightarrow> jsnum"
  arrayToString :: "json list \<Rightarrow> string"
  toLocaleTimeString :: "int option \<Rightarrow> string"

datatype js_error = TypeError | RangeError

text \<open>
  The time value of \<open>new Date(n)\<close> for a number \<open>n\<close>: invalid unless \<open>n\<close> is finite and
  within 8.64e15 milliseconds of the epoch, else \<open>n\<close> truncated towards zero.
\<close>

definition timeClip :: "jsnum \<Rightarrow> int option" where
  "timeClip n =
     (case n of
        Fin r \<Rightarrow>
          if \<bar>r\<bar> \<le> 8640000000000000 then Some (if 0 \<le> r then \<lfloor>r\<rfloor> else \<lceil>r\<rceil>) else None
      | _ \<Rightarrow> None)"

text \<open>\<open>Number(v)\<close>; \<open>None\<close> is \<open>undefined\<close>.  A plain object becomes not-a-number.\<close>

fun toNumber :: "platform \<Rightarrow> json option \<Rightarrow> jsnum" where
  "toNumber P None = NaN"
| "toNumber P (Some JNull) = Fin 0"
| "toNumber P (Some (JBool b)) = (if b then Fin 1 else Fin 0)"
| "toNumber P (Some (JNum n)) = n"
| "toNumber P (Some (JStr s)) = stringToNumber P s"
| "toNumber P (Some (JArr xs)) = stringToNumber P (arrayToString P xs)"
| "toNumber P (Some (JObj kvs)) = NaN"

text \<open>\<open>new Date(v).getTime()\<close> for a value \<open>v\<close>; \<open>None\<close> is not-a-number.\<close>

fun dateValue :: "platform \<Rightarrow> json \<Rightarrow> int option" where
  "dateValue P (JStr s) = dateParse P s"
| "dateValue P (JNum n) = timeClip n"
| "dateValue P (JBool b) = Some (if b then 1 else 0)"
| "dateValue P JNull = Some 0"
| "dateValue P (JArr xs) = dateParse P (arrayToString P xs)"
| "dateValue P (JObj kvs) = dateParse P ''[object Object]''"

section \<open>The forecast normalizer\<close>

record sun_pos =
  azimuth :: jsnum
  altitude :: jsnum

text \<open>
  \<open>UVForecastPoint\<close>.  The interface declares \<open>uv_time: string\<close>; the field holds whatever
  \<open>normalizePoint\<close> stores in it.
\<close>

record forecast_point =
  point_uv :: jsnum
  uv_time :: json
  sun_position :: "sun_pos option"

text \<open>\<open>p.uv_time ?? p.time ?? p.timestamp ?? p.time_utc ?? null\<close>.\<close>

definition timeField :: "json \<Rightarrow> json" where
  "timeField p =
     orNull (nullishOr (nullishOr (nullishOr (getProp p ''uv_time'') (getProp p ''time''))
       (getProp p ''timestamp'')) (getProp p ''time_utc''))"

text \<open>\<open>p.uv ?? p.value ?? p.UV ?? null\<close>.\<close>

definition uvField :: "json \<Rightarrow> json" where
  "uvField p = orNull (nullishOr (nullishOr (getProp p ''uv'') (getProp p ''value'')) (getProp p ''UV''))"

text \<open>
  The block \<open>if (typeof ts === "number")\<close>: above 1e12 the number is taken as milliseconds,
  above 1e9 as seconds, else \<open>ts\<close> becomes \<open>null\<close>.  \<open>toISOString\<close> throws a \<open>RangeError\<close> on
  an invalid date.
\<close>

definition tsOfNumber :: "platform \<Rightarrow> json \<Rightarrow> js_error + json" where
  "tsOfNumber P ts =
     (case ts of
        JNum n \<Rightarrow>
          if js_gt n (Fin (10 ^ 12)) then
            (case timeClip n of
               Some t \<Rightarrow> Inr (JStr (toISOString P t))
             | None \<Rightarrow> Inl RangeError)
          else if js_gt n (Fin (10 ^ 9)) then
            (case timeClip (js_mul n (Fin 1000)) of
               Some t \<Rightarrow> Inr (JStr (toISOString P t))
             | None \<Rightarrow> Inl RangeError)
          else Inr JNull
      | _ \<Rightarrow> Inr ts)"

text \<open>
  The block \<open>if (typeof ts === "string")\<close>: parse directly, else with \<open>Z\<close> appended; \<open>None\<close>
  is the \<open>return null\<close> when both dates are invalid.
\<close>

definition tsOfString :: "platform \<Rightarrow> json \<Rightarrow> json option" where
  "tsOfString P ts =
     (case ts of
        JStr s \<Rightarrow>
          (case dateParse P s of
             Some t \<Rightarrow> Some (JStr (toISOString P t))
           | None \<Rightarrow>
               (case dateParse P (s @ ''Z'') of
                  Some t \<Rightarrow> Some (JStr (toISOString P t))
                | None \<Rightarrow> None))
      | _ \<Rightarrow> Some ts)"

text \<open>The optional sun position: kept only when both numbers parse.\<close>

definition sunPositionOf :: "platform \<Rightarrow> json \<Rightarrow> sun_pos option" where
  "sunPositionOf P p =
     (let sunPosRaw = orNull (nullishOr (getProp p ''sun_position'') (getProp p ''sunPosition'')) in
      if truthy sunPosRaw \<and> isObject sunPosRaw then
        (let az = toNumber P (nullishOr (nullishOr (getProp sunPosRaw ''azimuth'')
                    (getProp sunPosRaw ''az'')) (getProp sunPosRaw ''a''));
             alt = toNumber P (nullishOr (nullishOr (getProp sunPosRaw ''altitude'')
                    (getProp sunPosRaw ''alt'')) (getProp sunPosRaw ''h''))
         in if az \<noteq> NaN \<and> alt \<noteq> NaN then Some \<lparr>azimuth = az, altitude = alt\<rparr> else None)
      else None)"

text \<open>
  \<open>normalizePoint\<close>: \<open>Inl\<close> is an exception thrown, \<open>Inr None\<close> is the result \<open>null\<close>, and
  \<open>Inr (Some pt)\<close> a forecast point.
\<close>

definition normalizePoint :: "platform \<Rightarrow> json \<Rightarrow> js_error + forecast_point option" where
  "normalizePoint P p =
     (if \<not> truthy p then Inr None
      else
        (case tsOfNumber P (timeField p) of
           Inl e \<Rightarrow> Inl e
         | Inr ts1 \<Rightarrow>
             (case tsOfString P ts1 of
                None \<Rightarrow> Inr None
              | Some ts \<Rightarrow>
                  (let uvVal = uvField p in
                   if uvVal = JNull then Inr None
                   else
                     (let uvNum = toNumber P (Some uvVal) in
                      if uvNum = NaN then Inr None
                      else
                        (let sun = sunPositionOf P p in
                         if \<not> truthy ts then Inr None
                         else Inr (Some \<lparr>point_uv = uvNum, uv_time = ts,
                                          sun_position = sun\<rparr>)))))))"

section \<open>The series builder\<close>

text \<open>
  The comparator \<open>(a, b) => new Date(a.uv_time).getTime() - new Date(b.uv_time).getTime()\<close>;
  \<open>None\<close> is not-a-number.
\<close>

definition compareByTime :: "platform \<Rightarrow> forecast_point \<Rightarrow> forecast_point \<Rightarrow> int option" where
  "compareByTime P a b =
     (case (dateValue P (uv_time a), dateValue P (uv_time b)) of
        (Some x, Some y) \<Rightarrow> Some (x - y)
      | _ \<Rightarrow> None)"

text \<open>
  \<open>Array.prototype.sort\<close> with a comparator.  ECMAScript requires a stable sort and treats a
  comparator result that is not-a-number as zero; the model is the stable insertion sort,
  each element going before the first one it compares strictly below.  When every time
  value is valid the comparator is a consistent order, and every conforming engine returns
  this list.  When a time value is invalid the comparator is not a consistent order:
  ECMAScript then leaves the order to the engine, and the engine's list may differ from
  this one.
\<close>

definition negative :: "int option \<Rightarrow> bool" where
  "negative v = (case v of None \<Rightarrow> False | Some d \<Rightarrow> d < 0)"

fun insertSorted :: "('a \<Rightarrow> 'a \<Rightarrow> int option) \<Rightarrow> 'a \<Rightarrow> 'a list \<Rightarrow> 'a list" where
  "insertSorted cmp x [] = [x]"
| "insertSorted cmp x (y # ys) =
     (if negative (cmp x y) then x # y # ys else y # insertSorted cmp x ys)"

definition arraySort :: "('a \<Rightarrow> 'a \<Rightarrow> int option) \<Rightarrow> 'a list \<Rightarrow> 'a list" where
  "arraySort cmp xs = foldl (\<lambda>acc x. insertSorted cmp x acc) [] xs"

text \<open>\<open>rawForecast.map(normalizePoint)\<close>: the first exception ends the map.\<close>

fun mapNormalize :: "platform \<Rightarrow> json list \<Rightarrow> js_error + forecast_point option list" where
  "mapNormalize P [] = Inr []"
| "mapNormalize P (r # rs) =
     (case normalizePoint P r of
        Inl e \<Rightarrow> Inl e
      | Inr x \<Rightarrow>
          (case mapNormalize P rs of
             Inl e \<Rightarrow> Inl e
           | Inr xs \<Rightarrow> Inr (x # xs)))"

text \<open>\<open>.filter(x => x !== null)\<close>.\<close>

definition dropNulls :: "'a option list \<Rightarrow> 'a list" where
  "dropNulls xs = List.map_filter (\<lambda>x. x) xs"

text \<open>\<open>rawForecast.map(normalizePoint).filter(x => x !== null)\<close>: the surviving points.\<close>

definition normalizeAll :: "platform \<Rightarrow> json list \<Rightarrow> js_error + forecast_point list" where
  "normalizeAll P rawForecast =
     (case mapNormalize P rawForecast of
        Inl e \<Rightarrow> Inl e
      | Inr xs \<Rightarrow> Inr (dropNulls xs))"

text \<open>Normalize, filter out the invalid records, sort by time.\<close>

definition normalizeAndSort :: "platform \<Rightarrow> json list \<Rightarrow> js_error + forecast_point list" where
  "normalizeAndSort P rawForecast =
     (case normalizeAll P rawForecast of
        Inl e \<Rightarrow> Inl e
      | Inr normalized \<Rightarrow> Inr (arraySort (compareByTime P) normalized))"

text \<open>
  The state of the dashboard that the forecast path of \<open>fetchUVData\<close> writes.  The scalars
  passed through to the display (current index, maximum, exposure times, sun times, time of
  the last update) are left out.
\<close>

record dashboard =
  forecast :: "forecast_point list"
  error :: "json option"
  isLoading :: bool

text \<open>
  The \<open>try\<close> block of \<open>fetchUVData\<close> on the parsed response \<open>data\<close>.  Reading \<open>data.success\<close>
  throws a \<open>TypeError\<close> when \<open>data\<close> is \<open>null\<close>.
\<close>

definition fetchBody :: "platform \<Rightarrow> json \<Rightarrow> dashboard \<Rightarrow> js_error + dashboard" where
  "fetchBody P data st =
     (if data = JNull then Inl TypeError
      else if truthyOpt (getProp data ''success'') \<and> truthyOpt (getProp data ''result'') then
        (let rawForecast =
               (if isArray (getProp data ''forecast'') then getProp data ''forecast''
                else if isArray (propOpt (getProp data ''result'') ''forecast'')
                then propOpt (getProp data ''result'') ''forecast''
                else Some JNull)
         in case rawForecast of
              Some (JArr raws) \<Rightarrow>
                (case normalizeAndSort P raws of
                   Inl e \<Rightarrow> Inl e
                 | Inr normalized \<Rightarrow> Inr (st\<lparr>forecast := normalized\<rparr>))
            | _ \<Rightarrow> Inr (st\<lparr>forecast := []\<rparr>))
      else if truthyOpt (getProp data ''forecast'') \<and> isArray (getProp data ''forecast'') then
        (case getProp data ''forecast'' of
           Some (JArr raws) \<Rightarrow>
             (case normalizeAndSort P raws of
                Inl e \<Rightarrow> Inl e
              | Inr normalized \<Rightarrow> Inr (st\<lparr>forecast := normalized\<rparr>))
         | _ \<Rightarrow> Inr st)
      else
        Inr (st\<lparr>error :=
          Some (if truthyOpt (getProp data ''error'') then orNull (getProp data ''error'')
                else JStr ''Failed to fetch UV data'')\<rparr>))"

text \<open>
  \<open>fetchUVData\<close> after the response has been parsed: the \<open>try\<close> block, the \<open>catch\<close> that
  turns any exception into the error message, and the \<open>finally\<close>.  \<open>Inl\<close> would be an
  exception that leaves the function.
\<close>

definition fetchUVData :: "platform \<Rightarrow> json \<Rightarrow> dashboard \<Rightarrow> js_error + dashboard" where
  "fetchUVData P data st =
     (let st0 = st\<lparr>isLoading := True, error := None\<rparr> in
      case fetchBody P data st0 of
        Inl e \<Rightarrow>
          Inr (st0\<lparr>error := Some (JStr ''Failed to connect to UV service''),
                   isLoading := False\<rparr>)
      | Inr st1 \<Rightarrow> Inr (st1\<lparr>isLoading := False\<rparr>))"

text \<open>\<open>getForecast24h\<close>: a sorted copy of the forecast, cut to its first 24 points.\<close>

definition getForecast24h :: "platform \<Rightarrow> forecast_point list \<Rightarrow> forecast_point list" where
  "getForecast24h P fc =
     (if length fc = 0 then []
      else (let sorted = arraySort (compareByTime P) fc in slice sorted 0 24))"

text \<open>\<open>chartData\<close>: the time label and the value of each point of the window.\<close>

definition chartData :: "platform \<Rightarrow> forecast_point list \<Rightarrow> chart_point list" where
  "chartData P forecast24h =
     map (\<lambda>p. \<lparr>timeLabel = toLocaleTimeString P (dateValue P (uv_time p)),
               uv = toNumber P (Some (JNum (point_uv p)))\<rparr>) forecast24h"

text \<open>\<open>lineSegments\<close>, as the component computes it from the forecast it holds.\<close>

definition lineSegments :: "platform \<Rightarrow> forecast_point list \<Rightarrow> chart_point list list" where
  "lineSegments P fc = splitIntoSegments (chartData P (getForecast24h P fc))"

section \<open>A platform and records for the examples\<close>

text \<open>
  The instants the examples use, each with its canonical ISO-8601 UTC string, and a platform
  in the UTC zone that knows these dates only: it parses the canonical strings and the two
  zone-less strings of the examples, and reads the numerals \<open>1\<close> and \<open>7\<close>.
\<close>

definition exampleDates :: "(string \<times> int) list" where
  "exampleDates =
     [(''2023-11-14T22:13:20.000Z'', 1700000000000),
      (''2023-11-15T01:00:00.000Z'', 1700010000000),
      (''2023-11-15T02:00:00.000Z'', 1700013600000),
      (''2001-09-09T01:46:40.000Z'', 1000000000000),
      (''+033658-09-27T01:46:40.000Z'', 1000000000000000)]"

definition examplePlatform :: platform where
  "examplePlatform =
     \<lparr>dateParse = map_of (exampleDates @
        [(''2023-11-15T01:00:00'', 1700010000000), (''2023-11-15T02:00:00'', 1700013600000)]),
      toISOString = (\<lambda>t. case find (\<lambda>e. snd e = t) exampleDates of
                           Some e \<Rightarrow> fst e | None \<Rightarrow> []),
      stringToNumber = (\<lambda>s. if s = [] then Fin 0 else if s = ''1'' then Fin 1
                             else if s = ''7'' then Fin 7 else NaN),
      arrayToString = (\<lambda>xs. []),
      toLocaleTimeString = (\<lambda>t. if t = Some 1700000000000 then ''10:13 pm''
                                 else if t = Some 1700010000000 then ''01:00 am''
                                 else if t = Some 1700013600000 then ''02:00 am''
                                 else ''Invalid Date'')\<rparr>"

text \<open>The three raw records of the example in the specification.\<close>

definition rawSeconds :: json where
  "rawSeconds = JObj [(''uv'', JNum (Fin 1)), (''time'', JNum (Fin 1700000000))]"

definition rawIso :: json where
  "rawIso = JObj [(''uv'', JNum (Fin 7)), (''time'', JStr ''2023-11-15T01:00:00'')]"

definition rawBadUv :: json where
  "rawBadUv = JObj [(''uv'', JStr ''bad''), (''time'', JStr ''2023-11-15T02:00:00'')]"



text \<open>A record whose timestamp field is neither a number nor a string.\<close>

definition rawBoolTime :: json where
  "rawBoolTime = JObj [(''uv'', JNum (Fin 1)), (''uv_time'', JBool True)]"

section \<open>Predicates used to state the properties\<close>

text \<open>
  What ECMAScript guarantees of every valid time value \<open>t\<close>, as a condition on the platform
  at one instant: the canonical string of \<open>t\<close> is not empty and parses back to \<open>t\<close>.
\<close>

definition isoRoundTrip :: "platform \<Rightarrow> int \<Rightarrow> bool" where
  "isoRoundTrip P t \<longleftrightarrow> toISOString P t \<noteq> [] \<and> dateParse P (toISOString P t) = Some t"

text \<open>The time value of a forecast point, and the order of two points with valid times.\<close>

definition timeOf :: "platform \<Rightarrow> forecast_point \<Rightarrow> int option" where
  "timeOf P p = dateValue P (uv_time p)"

definition timeLeq :: "platform \<Rightarrow> forecast_point \<Rightarrow> forecast_point \<Rightarrow> bool" where
  "timeLeq P a b = (case (timeOf P a, timeOf P b) of (Some x, Some y) \<Rightarrow> x \<le> y | _ \<Rightarrow> False)"

text \<open>A series is sorted when each point is at or before every later one.\<close>

definition sortedByTime :: "platform \<Rightarrow> forecast_point list \<Rightarrow> bool" where
  "sortedByTime P xs = sorted_wrt (timeLeq P) xs"


text \<open>The UV value of a record is present, not \<open>null\<close>, and \<open>Number\<close> makes a number of it.\<close>

definition uvAccepted :: "platform \<Rightarrow> json \<Rightarrow> bool" where
  "uvAccepted P p \<longleftrightarrow> uvField p \<noteq> JNull \<and> toNumber P (Some (uvField p)) \<noteq> NaN"

section \<open>Further records and points for the examples\<close>

text \<open>A record whose numeric timestamp is beyond the range of dates.\<close>

definition rawBeyondRange :: json where
  "rawBeyondRange = JObj [(''uv'', JNum (Fin 1)), (''time'', JNum (Fin 10000000000000000))]"

text \<open>A fourth record, at the same instant as \<open>rawIso\<close>, and the points of the three valid ones.\<close>

definition rawIsoTwin :: json where
  "rawIsoTwin = JObj [(''uv'', JNum (Fin 3)), (''uv_time'', JStr ''2023-11-15T01:00:00.000Z'')]"

definition pointSeconds :: forecast_point where
  "pointSeconds =
     \<lparr>point_uv = Fin 1, uv_time = JStr ''2023-11-14T22:13:20.000Z'', sun_position = None\<rparr>"

definition pointIso :: forecast_point where
  "pointIso =
     \<lparr>point_uv = Fin 7, uv_time = JStr ''2023-11-15T01:00:00.000Z'', sun_position = None\<rparr>"

definition pointIsoTwin :: forecast_point where
  "pointIsoTwin =
     \<lparr>point_uv = Fin 3, uv_time = JStr ''2023-11-15T01:00:00.000Z'', sun_position = None\<rparr>"

text \<open>
  A record whose timestamp field is an object, and the point the normalizer returns for it.
\<close>

definition rawObjTime :: json where
  "rawObjTime = JObj [(''uv'', JNum (Fin 2)), (''uv_time'', JObj [])]"

definition pointObjTime :: forecast_point where
  "pointObjTime = \<lparr>point_uv = Fin 2, uv_time = JObj [], sun_position = None\<rparr>"

text \<open>A successful response whose forecast holds one record beyond the range of dates.\<close>

definition responseBeyondRange :: json where
  "responseBeyondRange =
     JObj [(''success'', JBool True), (''result'', JObj [(''uv'', JNum (Fin 1))]),
           (''forecast'', JArr [rawIso, rawBeyondRange])]"

section \<open>Segmentation: the loop invariant\<close>

lemma pushLast_concat: "segments \<noteq> [] \<Longrightarrow> concat (pushLast segments x) = concat segments @ [x]"
  unfolding pushLast_def
  by (induction segments rule: rev_induct) auto

lemma pushLast_min: "segments \<noteq> [] \<Longrightarrow> \<forall>s\<in>set segments. n \<le> length s \<Longrightarrow> \<forall>s\<in>set (pushLast segments x). n \<le> length s"
  unfolding pushLast_def
  by (induction segments rule: rev_induct) auto

lemma pushLast_nonempty: "pushLast segments x \<noteq> []"
  unfolding pushLast_def by simp

lemma slice_append: "start \<le> i \<Longrightarrow> take start data @ slice data start i = take i data"
  unfolding slice_def
  by (metis le_add_diff_inverse take_add)

lemma slice_length: "length (slice data a b) = min (length data - a) (b - a)"
  unfolding slice_def by auto

lemma slice_single:
  assumes "length (slice data a b) = 1"
  shows "slice data a b = [data ! a]"
proof -
  from assms have a: "a < length data" and b: "a < b"
    by (auto simp: slice_length split: if_splits)
  from a have "drop a data = data ! a # drop (Suc a) data"
    by (simp add: Cons_nth_drop_Suc)
  moreover from b obtain m where "b - a = Suc m"
    by (cases "b - a") auto
  ultimately have "slice data a b = data ! a # take m (drop (Suc a) data)"
    by (simp add: slice_def)
  moreover from this assms have "take m (drop (Suc a) data) = []"
    by (cases "take m (drop (Suc a) data)") simp_all
  ultimately show ?thesis by simp
qed

lemma segLoop_inv:
  "segInv data start segments \<Longrightarrow> start \<le> i \<Longrightarrow> 1 \<le> i \<Longrightarrow>
   segLoop data i start currentCat segments = (start', segments') \<Longrightarrow>
   segInv data start' segments'"
proof (induction data i start currentCat segments rule: segLoop.induct)
  case (1 data i start currentCat segments)
  show ?case
  proof (cases "i < length data")
    case False
    with "1.prems" show ?thesis by (simp add: segLoop.simps)
  next
    case inb: True
    let ?cat = "getCategory (uv (data ! i))"
    let ?seg = "slice data start (i + 1)"
    have seglen: "length ?seg = i + 1 - start"
      using inb "1.prems"(2) by (simp add: slice_length)
    have cc: "concat segments @ ?seg = take (i + 1) data"
      using "1.prems"(1,2) unfolding segInv_def by (simp add: slice_append)
    show ?thesis
    proof (cases "?cat = currentCat")
      case True
      then have "segLoop data i start currentCat segments
                 = segLoop data (i + 1) start currentCat segments"
        using inb by (subst segLoop.simps) (simp add: Let_def)
      with "1.prems" have run: "segLoop data (i + 1) start currentCat segments = (start', segments')"
        by simp
      show ?thesis
        using "1.IH"(5) [OF inb refl _ "1.prems"(1) _ _ run] True "1.prems"(2)
        by simp
    next
      case changed: False
      show ?thesis
      proof (cases "length ?seg = 1")
        case True
        with seglen "1.prems"(2) have si: "start = i" by simp
        with "1.prems"(1,3) have ne: "segments \<noteq> []"
          unfolding segInv_def by auto
        have seg0: "?seg = [data ! i]"
          using slice_single [of data start "i + 1"] True si by simp
        have "segLoop data i start currentCat segments
                 = segLoop data (i + 1) (i + 1) ?cat (pushLast segments (?seg ! 0))"
          using inb changed True ne
          by (subst segLoop.simps) (simp add: Let_def)
        with "1.prems" have run: "segLoop data (i + 1) (i + 1) ?cat (pushLast segments (?seg ! 0)) = (start', segments')"
          by simp
        have inv': "segInv data (i + 1) (pushLast segments (?seg ! 0))"
          using "1.prems"(1) ne cc inb seg0
          unfolding segInv_def
          by (simp add: pushLast_concat pushLast_nonempty pushLast_min)
        show ?thesis
          using "1.IH"(1) [OF inb refl _ refl _ _ _ _ _ run] changed True ne inv'
          by simp
      next
        case False
        with seglen "1.prems"(2) have len2: "2 \<le> length ?seg" by simp
        have "segLoop data i start currentCat segments
                 = segLoop data (i + 1) (i + 1) ?cat (segments @ [?seg])"
          using inb changed False
          by (subst segLoop.simps) (simp add: Let_def)
        with "1.prems" have run: "segLoop data (i + 1) (i + 1) ?cat (segments @ [?seg]) = (start', segments')"
          by simp
        have inv': "segInv data (i + 1) (segments @ [?seg])"
          using "1.prems"(1) cc inb len2
          unfolding segInv_def by simp
        show ?thesis
          using "1.IH"(4) [OF inb refl _ refl _ _ _ _ run] changed False inv'
          by simp
      qed
    qed
  qed
qed

text \<open>
  While no segment has been completed the run starts at the first point, so the first
  candidate has two points or more: the branch that extends a one-point candidate with the
  following point is never entered from the initial state.
\<close>

lemma first_candidate_has_two_points:
  assumes "segInv data start segments" and "start \<le> i" and "1 \<le> i" and "i < length data"
    and "segments = []"
  shows "length (slice data start (i + 1)) = i + 1 \<and> 2 \<le> length (slice data start (i + 1))"
  using assms by (auto simp: segInv_def slice_length)

lemma slice_to_end: "slice data start (length data) = drop start data"
  unfolding slice_def by simp

lemma splitIntoSegments_post:
  assumes "data \<noteq> []"
  shows "segPost data (splitIntoSegments data)"
proof -
  obtain start segments where run:
    "segLoop data 1 0 (getCategory (uv (data ! 0))) [] = (start, segments)"
    by (cases "segLoop data 1 0 (getCategory (uv (data ! 0))) []")
  have "segInv data 0 []" by (simp add: segInv_def)
  from segLoop_inv [OF this _ _ run]
  have inv: "segInv data start segments" by simp
  then have cc: "concat segments = take start data" and le: "start \<le> length data"
    and emp: "segments = [] \<longrightarrow> start = 0" and big: "\<forall>s\<in>set segments. 2 \<le> length s"
    by (simp_all add: segInv_def)
  show ?thesis
  proof (cases "start < length data")
    case False
    with le have "start = length data" by simp
    with cc big assms run False show ?thesis
      by (simp add: splitIntoSegments_def segPost_def)
  next
    case True
    let ?lastSeg = "slice data start (length data)"
    have ls: "?lastSeg = drop start data" by (rule slice_to_end)
    show ?thesis
    proof (cases "length ?lastSeg = 1 \<and> length segments > 0")
      case merge: True
      then have res: "splitIntoSegments data = pushLast segments (?lastSeg ! 0)"
        using assms run True by (simp add: splitIntoSegments_def Let_def)
      from merge have one: "?lastSeg = [?lastSeg ! 0]"
        by (cases ?lastSeg) simp_all
      from merge have ne: "segments \<noteq> []" by auto
      have "concat (pushLast segments (?lastSeg ! 0)) = take start data @ ?lastSeg"
        using ne cc one by (simp add: pushLast_concat)
      then have "concat (pushLast segments (?lastSeg ! 0)) = data"
        by (simp add: ls)
      moreover have "\<forall>s\<in>set (pushLast segments (?lastSeg ! 0)). 2 \<le> length s"
        using ne big by (rule pushLast_min)
      ultimately show ?thesis
        unfolding res segPost_def by blast
    next
      case push: False
      then have res: "splitIntoSegments data = segments @ [?lastSeg]"
        using assms run True by (auto simp add: splitIntoSegments_def Let_def)
      have c: "concat (segments @ [?lastSeg]) = data"
        using cc by (simp add: ls)
      have len: "length ?lastSeg = length data - start" by (simp add: ls)
      show ?thesis
      proof (cases "length ?lastSeg = 1")
        case True
        with push have "segments = []" by simp
        moreover from True obtain p where "?lastSeg = [p]"
          by (cases ?lastSeg) auto
        ultimately show ?thesis
          using c unfolding res segPost_def by auto
      next
        case False
        with len \<open>start < length data\<close> have "2 \<le> length ?lastSeg" by simp
        with big c show ?thesis
          unfolding res segPost_def by auto
      qed
    qed
  qed
qed

lemma splitIntoSegments_Nil: "splitIntoSegments [] = []"
  by (simp add: splitIntoSegments_def)

lemma segPost_nonempty: "segPost data segs \<Longrightarrow> s \<in> set segs \<Longrightarrow> s \<noteq> []"
  unfolding segPost_def by auto

lemma concat_boundary:
  assumes ne: "\<forall>s\<in>set segs. s \<noteq> []" and k: "Suc k < length segs"
  shows "0 < length (concat (take (Suc k) segs)) \<and>
         length (concat (take (Suc k) segs)) < length (concat segs) \<and>
         last (segs ! k) = concat segs ! (length (concat (take (Suc k) segs)) - 1) \<and>
         hd (segs ! Suc k) = concat segs ! length (concat (take (Suc k) segs))"
proof -
  let ?A = "concat (take k segs)" and ?s = "segs ! k" and ?t = "segs ! Suc k"
  let ?B = "concat (drop (Suc (Suc k)) segs)"
  from k have s: "?s \<noteq> []" and t: "?t \<noteq> []" using ne by auto
  from k have tk: "take (Suc k) segs = take k segs @ [?s]"
    by (simp add: take_Suc_conv_app_nth)
  from k have "segs = take (Suc k) segs @ ?t # drop (Suc (Suc k)) segs"
    by (simp add: id_take_nth_drop)
  then have "concat segs = concat (take (Suc k) segs @ ?t # drop (Suc (Suc k)) segs)"
    by simp
  then have whole: "concat segs = (?A @ ?s) @ ?t @ ?B"
    by (simp add: tk)
  have n: "length (concat (take (Suc k) segs)) = length (?A @ ?s)"
    by (simp add: tk)
  have "((?A @ ?s) @ ?t @ ?B) ! (length (?A @ ?s) - 1) = (?A @ ?s) ! (length (?A @ ?s) - 1)"
    using s by (subst nth_append) simp
  also have "\<dots> = last (?A @ ?s)"
    using s by (simp add: last_conv_nth)
  also have "\<dots> = last ?s" using s by simp
  finally have l: "last ?s = concat segs ! (length (?A @ ?s) - 1)"
    using whole by simp
  have "((?A @ ?s) @ ?t @ ?B) ! length (?A @ ?s) = (?t @ ?B) ! 0"
    by (subst nth_append) simp
  also have "\<dots> = hd ?t" using t by (simp add: hd_conv_nth nth_append)
  finally have h: "hd ?t = concat segs ! length (?A @ ?s)"
    using whole by simp
  have "length (concat segs) = length (?A @ ?s) + length ?t + length ?B"
    by (subst whole) simp
  with s t l h show ?thesis
    unfolding n by simp
qed

text \<open>
  Every segment the loop completes ends at a category change, and so does every segment of
  the result but the last.
\<close>

lemma endsAtChanges_snoc:
  assumes "endsAtChanges data segments"
    and "changeAt data (length (concat segments) + length seg)"
  shows "endsAtChanges data (segments @ [seg])"
  unfolding endsAtChanges_def
proof (intro allI impI)
  fix k assume "k < length (segments @ [seg])"
  then consider "k < length segments" | "k = length segments" by fastforce
  then show "changeAt data (length (concat (take (Suc k) (segments @ [seg]))))"
  proof cases
    case 1
    with assms(1) show ?thesis by (simp add: endsAtChanges_def)
  next
    case 2
    with assms(2) show ?thesis by simp
  qed
qed

lemma endsAtChanges_pushLast:
  assumes "endsAtChanges data segments" and "segments \<noteq> []"
    and "changeAt data (length (concat segments) + 1)"
  shows "endsAtChanges data (pushLast segments x)"
proof -
  from assms(2) have sp: "segments = butlast segments @ [last segments]" by simp
  have ends: "endsAtChanges data (butlast segments)"
    unfolding endsAtChanges_def
  proof (intro allI impI)
    fix k assume k: "k < length (butlast segments)"
    then have "take (Suc k) (butlast segments) = take (Suc k) segments"
      by (simp add: take_butlast)
    moreover from k have "k < length segments" by simp
    ultimately show "changeAt data (length (concat (take (Suc k) (butlast segments))))"
      using assms(1) by (simp add: endsAtChanges_def)
  qed
  have "length (concat (butlast segments)) + length (last segments @ [x]) =
        length (concat segments) + 1"
    by (subst (2) sp) simp
  with assms(3) have "changeAt data (length (concat (butlast segments)) + length (last segments @ [x]))"
    by simp
  from endsAtChanges_snoc [OF ends this] show ?thesis by (simp add: pushLast_def)
qed

lemma segLoop_ends:
  "runInv data i start currentCat segments \<Longrightarrow>
   segLoop data i start currentCat segments = (start', segments') \<Longrightarrow>
   endsAtChanges data segments'"
proof (induction data i start currentCat segments rule: segLoop.induct)
  case (1 data i start currentCat segments)
  from "1.prems"(1) have inv: "segInv data start segments" and si: "start \<le> i" and i1: "1 \<le> i"
    and cur: "currentCat = getCategory (uv (data ! (start - 1)))"
    and run: "\<forall>j. start \<le> j \<and> j < i \<longrightarrow> getCategory (uv (data ! j)) = currentCat"
    and ends: "endsAtChanges data segments"
    by (simp_all add: runInv_def)
  show ?case
  proof (cases "i < length data")
    case False
    with "1.prems" ends show ?thesis by (simp add: segLoop.simps)
  next
    case inb: True
    let ?cat = "getCategory (uv (data ! i))"
    let ?seg = "slice data start (i + 1)"
    have seglen: "length ?seg = i + 1 - start"
      using inb si by (simp add: slice_length)
    have cc: "concat segments @ ?seg = take (i + 1) data"
      using inv si unfolding segInv_def by (simp add: slice_append)
    have prev: "getCategory (uv (data ! (i - 1))) = currentCat"
    proof (cases "start < i")
      case True
      with run show ?thesis by simp
    next
      case False
      with si have "start = i" by simp
      with cur show ?thesis by simp
    qed
    show ?thesis
    proof (cases "?cat = currentCat")
      case True
      then have "segLoop data i start currentCat segments
                 = segLoop data (i + 1) start currentCat segments"
        using inb by (subst segLoop.simps) (simp add: Let_def)
      with "1.prems" have r: "segLoop data (i + 1) start currentCat segments = (start', segments')"
        by simp
      have "runInv data (i + 1) start currentCat segments"
        using inv si cur run ends True by (auto simp: runInv_def less_Suc_eq)
      from "1.IH"(5) [OF inb refl _ this r] True show ?thesis by simp
    next
      case changed: False
      with prev i1 have ch: "changeAt data (i + 1)"
        by (simp add: changeAt_def)
      from cc have len: "length (concat segments) + length ?seg = i + 1"
        using inb by (metis length_append length_take min.absorb2 Suc_eq_plus1 Suc_leI)
      show ?thesis
      proof (cases "length ?seg = 1")
        case True
        with seglen si have st: "start = i" by simp
        with inv i1 have ne: "segments \<noteq> []"
          unfolding segInv_def by auto
        have seg0: "?seg = [data ! i]"
          using slice_single [of data start "i + 1"] True st by simp
        have "segLoop data i start currentCat segments
                 = segLoop data (i + 1) (i + 1) ?cat (pushLast segments (?seg ! 0))"
          using inb changed True ne
          by (subst segLoop.simps) (simp add: Let_def)
        with "1.prems" have r: "segLoop data (i + 1) (i + 1) ?cat (pushLast segments (?seg ! 0)) = (start', segments')"
          by simp
        have inv': "segInv data (i + 1) (pushLast segments (?seg ! 0))"
          using inv ne cc inb seg0
          unfolding segInv_def
          by (simp add: pushLast_concat pushLast_nonempty pushLast_min)
        from len True have "changeAt data (length (concat segments) + 1)"
          using ch by simp
        from endsAtChanges_pushLast [OF ends ne this]
        have "runInv data (i + 1) (i + 1) ?cat (pushLast segments (?seg ! 0))"
          using inv' by (auto simp: runInv_def)
        from "1.IH"(1) [OF inb refl _ refl _ _ this r] changed True ne show ?thesis
          by simp
      next
        case False
        with seglen si have len2: "2 \<le> length ?seg" by simp
        have "segLoop data i start currentCat segments
                 = segLoop data (i + 1) (i + 1) ?cat (segments @ [?seg])"
          using inb changed False
          by (subst segLoop.simps) (simp add: Let_def)
        with "1.prems" have r: "segLoop data (i + 1) (i + 1) ?cat (segments @ [?seg]) = (start', segments')"
          by simp
        have inv': "segInv data (i + 1) (segments @ [?seg])"
          using inv cc inb len2
          unfolding segInv_def by simp
        from len ch have "changeAt data (length (concat segments) + length ?seg)" by simp
        from endsAtChanges_snoc [OF ends this]
        have "runInv data (i + 1) (i + 1) ?cat (segments @ [?seg])"
          using inv' by (auto simp: runInv_def)
        from "1.IH"(4) [OF inb refl _ refl _ this r] changed False show ?thesis
          by simp
      qed
    qed
  qed
qed

lemma splitIntoSegments_changes:
  assumes k: "Suc k < length (splitIntoSegments data)"
  shows "changeAt data (length (concat (take (Suc k) (splitIntoSegments data))))"
proof -
  from k have ne: "data \<noteq> []" by (auto simp: splitIntoSegments_Nil)
  obtain start segments where run:
    "segLoop data 1 0 (getCategory (uv (data ! 0))) [] = (start, segments)"
    by (cases "segLoop data 1 0 (getCategory (uv (data ! 0))) []")
  have "runInv data 1 0 (getCategory (uv (data ! 0))) []"
    by (simp add: runInv_def segInv_def endsAtChanges_def)
  from segLoop_ends [OF this run] have ends: "endsAtChanges data segments" .
  let ?lastSeg = "slice data start (length data)"
  have res: "splitIntoSegments data =
      (if start < length data then
         (if length ?lastSeg = 1 \<and> segments \<noteq> [] then pushLast segments (?lastSeg ! 0)
          else segments @ [?lastSeg])
       else segments)"
    using ne run by (simp add: splitIntoSegments_def Let_def)
  consider (merge) "splitIntoSegments data = pushLast segments (?lastSeg ! 0)" "segments \<noteq> []"
    | (push) "splitIntoSegments data = segments @ [?lastSeg]"
    | (none) "splitIntoSegments data = segments"
    unfolding res by (cases "start < length data"; cases "length ?lastSeg = 1 \<and> segments \<noteq> []") auto
  then show ?thesis
  proof cases
    case merge
    with k have kb: "Suc k \<le> length (butlast segments)"
      by (simp add: pushLast_def)
    then have "take (Suc k) (splitIntoSegments data) = take (Suc k) (butlast segments)"
      by (simp add: merge(1) pushLast_def)
    also have "\<dots> = take (Suc k) segments"
      using kb by (simp add: take_butlast)
    finally show ?thesis
      using ends kb by (simp add: endsAtChanges_def)
  next
    case push
    with k have "k < length segments" by simp
    with ends push show ?thesis by (simp add: endsAtChanges_def)
  next
    case none
    with k have "k < length segments" by simp
    with ends none show ?thesis by (simp add: endsAtChanges_def)
  qed
qed

section \<open>Segmentation: the claims\<close>

text \<open>
  Claim C10.  The segments returned by \<open>splitIntoSegments\<close> are an ordered partition of
  the input: concatenated in order they give back exactly the input list, so every input
  point lies in exactly one segment and no point is repeated in two segments.
\<close>

theorem splitIntoSegments_partition:
  "concat (splitIntoSegments data) = data"
  using splitIntoSegments_post [of data]
  by (cases "data = []") (simp_all add: splitIntoSegments_Nil segPost_def)

lemma segLoop_single_step:
  assumes "i < length data" and "getCategory (uv (data ! i)) \<noteq> currentCat"
    and "length (slice data start (i + 1)) = 1"
  shows "segLoop data i start currentCat segments =
     (if segments \<noteq> [] then
        segLoop data (i + 1) (i + 1) (getCategory (uv (data ! i))) (pushLast segments (data ! start))
      else if i + 1 < length data then
        segLoop data (i + 2) (i + 2) (getCategory (uv (data ! i))) [[data ! start, data ! (i + 1)]]
      else segLoop data (i + 1) (i + 1) (getCategory (uv (data ! i))) [[data ! start]])"
  using assms slice_single [OF assms(3)]
  by (subst segLoop.simps) (simp add: Let_def)

text \<open>
  Claim C4.  No segment of the output is empty, and a segment of length 1 occurs only as the
  sole segment of the output.  The merge rule of the loop: when the candidate run at a
  category change has length 1, it is pushed onto the preceding completed segment if there
  is one; otherwise it absorbs the following point if there is one (and the scan moves past
  it); otherwise it is pushed as it is.
\<close>

theorem no_single_point_segment:
  "(\<forall>seg\<in>set (splitIntoSegments data).
      seg \<noteq> [] \<and> (length seg = 1 \<longrightarrow> splitIntoSegments data = [seg])) \<and>
   (\<forall>i start currentCat segments.
      i < length data \<and> getCategory (uv (data ! i)) \<noteq> currentCat \<and>
      length (slice data start (i + 1)) = 1 \<longrightarrow>
      segLoop data i start currentCat segments =
        (if segments \<noteq> [] then
           segLoop data (i + 1) (i + 1) (getCategory (uv (data ! i)))
             (pushLast segments (data ! start))
         else if i + 1 < length data then
           segLoop data (i + 2) (i + 2) (getCategory (uv (data ! i)))
             [[data ! start, data ! (i + 1)]]
         else segLoop data (i + 1) (i + 1) (getCategory (uv (data ! i))) [[data ! start]]))"
proof (intro conjI ballI allI impI)
  fix seg assume seg: "seg \<in> set (splitIntoSegments data)"
  then have ne: "data \<noteq> []" by (auto simp: splitIntoSegments_Nil)
  from splitIntoSegments_post [OF ne] seg show "seg \<noteq> []"
    by (rule segPost_nonempty)
  assume "length seg = 1"
  with splitIntoSegments_post [OF ne] seg show "splitIntoSegments data = [seg]"
    unfolding segPost_def by auto
next
  fix i start currentCat segments
  assume "i < length data \<and> getCategory (uv (data ! i)) \<noteq> currentCat \<and>
      length (slice data start (i + 1)) = 1"
  then show "segLoop data i start currentCat segments =
        (if segments \<noteq> [] then
           segLoop data (i + 1) (i + 1) (getCategory (uv (data ! i)))
             (pushLast segments (data ! start))
         else if i + 1 < length data then
           segLoop data (i + 2) (i + 2) (getCategory (uv (data ! i)))
             [[data ! start, data ! (i + 1)]]
         else segLoop data (i + 1) (i + 1) (getCategory (uv (data ! i))) [[data ! start]])"
    by (intro segLoop_single_step) simp_all
qed

text \<open>The equations that evaluate the segmentation on a concrete series.\<close>

lemmas seg_eval = splitIntoSegments_def segLoop.simps getCategory_def slice_def pushLast_def Let_def

text \<open>
  The theorem at a one-point series, whose only segment is that point, and at the last point
  of \<open>chartZigZag\<close>, a one-point candidate that joins the segment before it.
\<close>

theorem no_single_point_segment_witness:
  "splitIntoSegments [\<lparr>timeLabel = ''09:00'', uv = Fin 1\<rparr>] = [[\<lparr>timeLabel = ''09:00'', uv = Fin 1\<rparr>]] \<and>
   segLoop chartZigZag 2 2 High [take 2 chartZigZag] = (3, [chartZigZag])"
proof -
  let ?p = "\<lparr>timeLabel = ''09:00'', uv = Fin 1\<rparr>"
  have a: "[?p] \<in> set (splitIntoSegments [?p])"
    by (simp add: seg_eval)
  have b: "(2::nat) < length chartZigZag \<and> getCategory (uv (chartZigZag ! 2)) \<noteq> High \<and>
      length (slice chartZigZag 2 (2 + 1)) = 1"
    by (simp add: chartZigZag_def getCategory_def slice_def)
  from no_single_point_segment [of "[?p]"] a
  have "splitIntoSegments [?p] = [[?p]]" by simp
  moreover from no_single_point_segment [of chartZigZag] b
  have "segLoop chartZigZag 2 2 High [take 2 chartZigZag] =
        segLoop chartZigZag (2 + 1) (2 + 1) (getCategory (uv (chartZigZag ! 2)))
             (pushLast [take 2 chartZigZag] (chartZigZag ! 2))"
    by simp
  moreover have "segLoop chartZigZag (2 + 1) (2 + 1) (getCategory (uv (chartZigZag ! 2)))
             (pushLast [take 2 chartZigZag] (chartZigZag ! 2)) = (3, [chartZigZag])"
    by (simp add: chartZigZag_def seg_eval)
  ultimately show ?thesis by simp
qed

text \<open>
  Claim C1, as stated, fails.  On \<open>chartLowHigh\<close> the output is two segments whose runs
  differ in category (\<open>low\<close>, then \<open>high\<close>); the last point of the first (10:00) is not the
  first point of the second (11:00), and joining them with the boundary counted once loses
  the 11:00 point.
\<close>

theorem shared_boundary_counterexample:
  "splitIntoSegments chartLowHigh = [take 2 chartLowHigh, drop 2 chartLowHigh] \<and>
   getCategory (uv (hd (take 2 chartLowHigh))) \<noteq> getCategory (uv (hd (drop 2 chartLowHigh))) \<and>
   last (take 2 chartLowHigh) \<noteq> hd (drop 2 chartLowHigh) \<and>
   take 2 chartLowHigh @ tl (drop 2 chartLowHigh) \<noteq> chartLowHigh"
  by (simp add: chartLowHigh_def seg_eval)

text \<open>
  Claim C1, amended.  Adjacent segments share no point: the boundary point at a category
  change closes the earlier segment only, and the next segment begins with the input point
  that follows it.  With \<open>n\<close> the number of points in the first \<open>k + 1\<close> segments, segment
  \<open>k\<close> ends with input point \<open>n - 1\<close>, which is a category change (its category differs from
  that of input point \<open>n - 2\<close>), and segment \<open>k + 1\<close> begins with input point \<open>n\<close>; plain
  concatenation of the segments reconstructs the input series.
\<close>

theorem segments_adjoin_without_overlap:
  "concat (splitIntoSegments data) = data \<and>
   (\<forall>k. Suc k < length (splitIntoSegments data) \<longrightarrow>
      2 \<le> length (concat (take (Suc k) (splitIntoSegments data))) \<and>
      length (concat (take (Suc k) (splitIntoSegments data))) < length data \<and>
      last (splitIntoSegments data ! k) =
        data ! (length (concat (take (Suc k) (splitIntoSegments data))) - 1) \<and>
      getCategory (uv (data ! (length (concat (take (Suc k) (splitIntoSegments data))) - 1))) \<noteq>
        getCategory (uv (data ! (length (concat (take (Suc k) (splitIntoSegments data))) - 2))) \<and>
      hd (splitIntoSegments data ! Suc k) =
        data ! length (concat (take (Suc k) (splitIntoSegments data))))"
proof -
  have c: "concat (splitIntoSegments data) = data"
    using splitIntoSegments_post [of data]
    by (cases "data = []") (simp_all add: splitIntoSegments_Nil segPost_def)
  have ne: "\<forall>s\<in>set (splitIntoSegments data). s \<noteq> []"
    using splitIntoSegments_post [of data] segPost_nonempty
    by (cases "data = []") (auto simp: splitIntoSegments_Nil)
  show ?thesis
    using c concat_boundary [OF ne] splitIntoSegments_changes [of _ data]
    by (auto simp: changeAt_def)
qed

text \<open>
  The theorem at \<open>chartLowHigh\<close>: two segments, the first ending with input point 1, where
  the category changes from \<open>low\<close> to \<open>high\<close>, and the second beginning with input point 2.
\<close>

theorem segments_adjoin_without_overlap_witness:
  "Suc 0 < length (splitIntoSegments chartLowHigh) \<and>
   last (splitIntoSegments chartLowHigh ! 0) = chartLowHigh ! 1 \<and>
   getCategory (uv (chartLowHigh ! 1)) \<noteq> getCategory (uv (chartLowHigh ! 0)) \<and>
   hd (splitIntoSegments chartLowHigh ! Suc 0) = chartLowHigh ! 2"
proof -
  have s: "splitIntoSegments chartLowHigh = [take 2 chartLowHigh, drop 2 chartLowHigh]"
    by (simp add: chartLowHigh_def seg_eval)
  then have l: "Suc 0 < length (splitIntoSegments chartLowHigh)" by simp
  have n: "length (concat (take (Suc 0) (splitIntoSegments chartLowHigh))) = 2"
    unfolding s by (simp add: chartLowHigh_def)
  from segments_adjoin_without_overlap [of chartLowHigh, THEN conjunct2, THEN spec, of 0] l
  have "last (splitIntoSegments chartLowHigh ! 0) =
          chartLowHigh ! (length (concat (take (Suc 0) (splitIntoSegments chartLowHigh))) - 1) \<and>
        getCategory (uv (chartLowHigh !
            (length (concat (take (Suc 0) (splitIntoSegments chartLowHigh))) - 1))) \<noteq>
          getCategory (uv (chartLowHigh !
            (length (concat (take (Suc 0) (splitIntoSegments chartLowHigh))) - 2))) \<and>
        hd (splitIntoSegments chartLowHigh ! Suc 0) =
          chartLowHigh ! length (concat (take (Suc 0) (splitIntoSegments chartLowHigh)))"
    by blast
  then have "last (splitIntoSegments chartLowHigh ! 0) = chartLowHigh ! (2 - 1) \<and>
        getCategory (uv (chartLowHigh ! (2 - 1))) \<noteq> getCategory (uv (chartLowHigh ! (2 - 2))) \<and>
        hd (splitIntoSegments chartLowHigh ! Suc 0) = chartLowHigh ! 2"
    unfolding n .
  with l show ?thesis by simp
qed

section \<open>Rounding to doubles\<close>

text \<open>
  Rounding moves a value of magnitude 1 or more by at most its own magnitude (indeed by half
  a spacing), and leaves every integer below \<open>2 ^ 53\<close> in magnitude as it is.
\<close>

lemma roundHalfEven_of_int: "roundHalfEven (of_int z) = z"
  by (simp add: roundHalfEven_def)



lemma floor_log_bounds:
  assumes "1 \<le> x" and "x < 2 ^ n"
  shows "0 \<le> \<lfloor>log 2 x\<rfloor>" and "\<lfloor>log 2 x\<rfloor> < int n"
proof -
  from assms(1) have "0 \<le> log 2 x" by simp
  then show "0 \<le> \<lfloor>log 2 x\<rfloor>" by simp
  from assms have "x < 2 powr real n" by (simp add: powr_realpow)
  with assms(1) have "log 2 x < real n" by (simp add: log_less_iff)
  then show "\<lfloor>log 2 x\<rfloor> < int n" by (simp add: floor_less_iff)
qed



lemma nearestDouble_of_int:
  assumes "\<bar>n\<bar> < 2 ^ 53"
  shows "nearestDouble (of_int n) = of_int n"
proof (cases "n = 0")
  case True
  then show ?thesis by (simp add: nearestDouble_def)
next
  case False
  let ?x = "of_int n :: real" and ?e = "\<lfloor>log 2 \<bar>of_int n :: real\<bar>\<rfloor>"
  from False have one: "1 \<le> \<bar>?x\<bar>" by (simp flip: of_int_abs)
  from assms have "\<bar>?x\<bar> < 2 ^ 53"
    by (metis of_int_abs of_int_less_iff of_int_numeral of_int_power)
  from floor_log_bounds [OF one this] have e: "0 \<le> ?e" "?e < 53" by simp_all
  define k where "k = nat (52 - ?e)"
  from e have ek: "?e - 52 = - int k" by (simp add: k_def)
  from e have "doubleUlp ?x = 2 powr of_int (?e - 52)" by (simp add: doubleUlp_def max_def)
  also have "\<dots> = 2 powr (- real k)" by (simp add: ek)
  also have "\<dots> = 1 / 2 ^ k" by (simp add: powr_minus powr_realpow divide_inverse)
  finally have u: "doubleUlp ?x = 1 / 2 ^ k" .
  have q: "?x / doubleUlp ?x = of_int (n * 2 ^ k)" by (simp add: u)
  have "nearestDouble ?x = of_int (roundHalfEven (?x / doubleUlp ?x)) * doubleUlp ?x"
    using False by (simp add: nearestDouble_def)
  also have "\<dots> = of_int (roundHalfEven (of_int (n * 2 ^ k))) * doubleUlp ?x"
    by (simp only: q)
  also have "\<dots> = of_int (n * 2 ^ k) * (1 / 2 ^ k)"
    by (simp only: roundHalfEven_of_int u)
  also have "\<dots> = ?x" by simp
  finally show ?thesis .
qed

lemma nearestDouble_numeral:
  "(numeral k :: int) < 2 ^ 53 \<Longrightarrow> nearestDouble (numeral k) = numeral k"
  using nearestDouble_of_int [of "numeral k"] by simp

lemma roundToDouble_finite:
  "\<bar>nearestDouble x\<bar> < 2 ^ 1024 \<Longrightarrow> roundToDouble x = Fin (nearestDouble x)"
  by (auto simp: roundToDouble_def Let_def)

lemma roundToDouble_numeral:
  assumes "(numeral k :: int) < 2 ^ 53"
  shows "roundToDouble (numeral k) = Fin (numeral k)"
proof -
  from assms have "(numeral k :: real) < 2 ^ 53"
    by (metis of_int_less_iff of_int_numeral of_int_power)
  also have "(2::real) ^ 53 \<le> 2 ^ 1024" by (rule power_increasing) simp_all
  finally have "\<bar>numeral k :: real\<bar> < 2 ^ 1024" by simp
  with nearestDouble_numeral [OF assms] show ?thesis
    by (simp add: roundToDouble_finite)
qed

section \<open>The normalizer: numeric timestamps and rejected records\<close>

text \<open>
  The equations that evaluate the normalizer, and those of the example platform.
\<close>

lemmas norm_eval = normalizePoint_def tsOfNumber_def tsOfString_def timeField_def uvField_def
  sunPositionOf_def nullishOr_def orNull_def timeClip_def js_gt_def uvAccepted_def
  isoRoundTrip_def Let_def roundToDouble_numeral nearestDouble_numeral
lemmas ex_eval = examplePlatform_def exampleDates_def
















text \<open>
  What the normalizer does guarantee of a point it returns: the UV value was present and is
  a number, and the stored timestamp is truthy.
\<close>

lemma normalizePoint_uv_checked:
  assumes "normalizePoint P p = Inr (Some pt)"
  shows "uvAccepted P p \<and> point_uv pt = toNumber P (Some (uvField p)) \<and> point_uv pt \<noteq> NaN \<and>
         truthy (uv_time pt)"
  using assms
  by (auto simp: normalizePoint_def uvAccepted_def Let_def split: if_splits sum.splits option.splits)

text \<open>
  The stored timestamp is a canonical string, unless the timestamp field was neither a
  number nor a string: then it is stored as it came.
\<close>

lemma normalizePoint_time_cases:
  assumes "normalizePoint P p = Inr (Some pt)"
  shows "(\<exists>t. uv_time pt = JStr (toISOString P t)) \<or>
         (uv_time pt = timeField p \<and> (\<forall>n. timeField p \<noteq> JNum n) \<and> (\<forall>s. timeField p \<noteq> JStr s))"
  using assms
  by (auto simp: normalizePoint_def tsOfNumber_def tsOfString_def Let_def
      split: if_splits sum.splits option.splits json.splits)

text \<open>
  Claim C6: a record whose timestamp cannot be resolved to an instant, or whose UV value is
  not a number, is rejected.  The code breaks the timestamp half.  The record \<open>{uv: 1, uv_time: true}\<close> has a timestamp that
  resolves to no instant, and a forecast point is returned for it all the same, with
  \<open>uv_time\<close> holding \<open>true\<close>: neither \<open>typeof\<close> test applies, and the final guard
  \<open>if (!ts) return null\<close> lets a truthy value through.
\<close>

theorem unresolved_timestamp_kept:
  "normalizePoint P rawBoolTime =
     Inr (Some \<lparr>point_uv = Fin 1, uv_time = JBool True, sun_position = None\<rparr>)"
  by (simp add: norm_eval rawBoolTime_def)

section \<open>The sort\<close>

text \<open>
  Insertion keeps the elements; the sort of a list extended by one element inserts it into
  the sorted list.
\<close>

lemma mset_insertSorted: "mset (insertSorted cmp x ys) = add_mset x (mset ys)"
  by (induction ys) auto

lemma set_insertSorted: "set (insertSorted cmp x ys) = insert x (set ys)"
  by (induction ys) auto

lemma arraySort_snoc: "arraySort cmp (xs @ [x]) = insertSorted cmp x (arraySort cmp xs)"
  by (simp add: arraySort_def)

lemma arraySort_Nil: "arraySort cmp [] = []"
  by (simp add: arraySort_def)

lemma mset_arraySort: "mset (arraySort cmp xs) = mset xs"
  by (induction xs rule: rev_induct) (simp_all add: arraySort_snoc arraySort_Nil mset_insertSorted)

lemma set_arraySort: "set (arraySort cmp xs) = set xs"
  by (metis mset_arraySort set_mset_mset)

text \<open>
  An element that compares below none of the list goes to its end, so a list in which no
  element compares below an earlier one is left as it is.
\<close>

lemma insertSorted_last:
  "\<forall>y\<in>set ys. \<not> negative (cmp x y) \<Longrightarrow> insertSorted cmp x ys = ys @ [x]"
  by (induction ys) auto

lemma arraySort_id:
  "sorted_wrt (\<lambda>a b. \<not> negative (cmp b a)) xs \<Longrightarrow> arraySort cmp xs = xs"
proof (induction xs rule: rev_induct)
  case Nil
  show ?case by (simp add: arraySort_Nil)
next
  case (snoc x xs)
  then have "arraySort cmp xs = xs" and "\<forall>y\<in>set xs. \<not> negative (cmp x y)"
    by (simp_all add: sorted_wrt_append)
  then show ?case by (simp add: arraySort_snoc insertSorted_last)
qed

text \<open>
  When the comparator orders by a key, insertion keeps the list sorted by the key and puts
  the new element after those of equal key.
\<close>

lemma sorted_insertSorted:
  assumes "\<forall>y\<in>set ys. negative (cmp x y) \<longleftrightarrow> k x < k y" and "sorted (map k ys)"
  shows "sorted (map k (insertSorted cmp x ys))"
  using assms by (induction ys) (auto simp: set_insertSorted)

lemma filter_insertSorted:
  assumes "\<forall>y\<in>set ys. negative (cmp x y) \<longleftrightarrow> k x < k y" and "sorted (map k ys)"
  shows "filter (\<lambda>p. k p = t) (insertSorted cmp x ys) =
         filter (\<lambda>p. k p = t) ys @ (if k x = t then [x] else [])"
  using assms
proof (induction ys)
  case Nil
  show ?case by simp
next
  case (Cons y ys)
  show ?case
  proof (cases "negative (cmp x y)")
    case True
    with Cons.prems have lt: "k x < k y" by simp
    from Cons.prems(2) have "\<forall>z\<in>set (y # ys). k y \<le> k z" by auto
    with lt have "\<forall>z\<in>set (y # ys). k z \<noteq> k x" by fastforce
    then have "k x = t \<Longrightarrow> filter (\<lambda>p. k p = t) (y # ys) = []"
      by (auto simp: filter_empty_conv)
    with True show ?thesis by auto
  next
    case False
    with Cons show ?thesis by auto
  qed
qed

lemma arraySort_keyed:
  assumes "\<forall>a\<in>set xs. \<forall>b\<in>set xs. negative (cmp a b) \<longleftrightarrow> k a < k b"
  shows "sorted (map k (arraySort cmp xs)) \<and>
         (\<forall>t. filter (\<lambda>p. k p = t) (arraySort cmp xs) = filter (\<lambda>p. k p = t) xs)"
  using assms
proof (induction xs rule: rev_induct)
  case Nil
  show ?case by (simp add: arraySort_Nil)
next
  case (snoc x xs)
  then have ih: "sorted (map k (arraySort cmp xs))"
    and st: "\<forall>t. filter (\<lambda>p. k p = t) (arraySort cmp xs) = filter (\<lambda>p. k p = t) xs"
    by auto
  from snoc.prems have key: "\<forall>y\<in>set (arraySort cmp xs). negative (cmp x y) \<longleftrightarrow> k x < k y"
    by (simp add: set_arraySort)
  show ?case
    unfolding arraySort_snoc
    using sorted_insertSorted [of "arraySort cmp xs" cmp x k, OF key ih]
      filter_insertSorted [of "arraySort cmp xs" cmp x k, OF key ih] st by simp
qed

section \<open>The series builder: sorted and stable\<close>

text \<open>
  The map over the raw records succeeds exactly when no record throws, and then holds the
  result of each record, in input order.
\<close>

lemma mapNormalize_Inr:
  "\<forall>r\<in>set raws. \<not> isl (normalizePoint P r) \<Longrightarrow>
   mapNormalize P raws = Inr (map (\<lambda>r. projr (normalizePoint P r)) raws)"
  by (induction raws) (auto split: sum.splits)

lemma mapNormalize_ok:
  "mapNormalize P raws = Inr xs \<Longrightarrow> (\<forall>r\<in>set raws. \<not> isl (normalizePoint P r))"
  by (induction raws arbitrary: xs) (auto split: sum.splits)

lemma normalizeAll_Inr:
  "normalizeAll P raws = Inr normalized \<longleftrightarrow>
   (\<forall>r\<in>set raws. \<not> isl (normalizePoint P r)) \<and>
   normalized = dropNulls (map (\<lambda>r. projr (normalizePoint P r)) raws)"
proof
  assume a: "normalizeAll P raws = Inr normalized"
  then obtain xs where xs: "mapNormalize P raws = Inr xs" and n: "normalized = dropNulls xs"
    by (auto simp: normalizeAll_def split: sum.splits)
  from mapNormalize_ok [OF xs] have ok: "\<forall>r\<in>set raws. \<not> isl (normalizePoint P r)" .
  from mapNormalize_Inr [OF ok] xs n ok
  show "(\<forall>r\<in>set raws. \<not> isl (normalizePoint P r)) \<and>
   normalized = dropNulls (map (\<lambda>r. projr (normalizePoint P r)) raws)" by simp
next
  assume "(\<forall>r\<in>set raws. \<not> isl (normalizePoint P r)) \<and>
   normalized = dropNulls (map (\<lambda>r. projr (normalizePoint P r)) raws)"
  then show "normalizeAll P raws = Inr normalized"
    by (simp add: normalizeAll_def mapNormalize_Inr)
qed

text \<open>
  The surviving points of a permutation of the input are a permutation of the surviving
  points.
\<close>

lemma mset_dropNulls_map:
  "mset raws' = mset raws \<Longrightarrow> mset (dropNulls (map f raws')) = mset (dropNulls (map f raws))"
proof -
  assume a: "mset raws' = mset raws"
  have "\<And>xs. mset (dropNulls (map f xs)) =
          image_mset the (filter_mset (\<lambda>x. x \<noteq> None) (image_mset f (mset xs)))"
    by (simp add: dropNulls_def map_filter_def comp_def)
  with a show ?thesis by simp
qed

lemma normalizeAll_permuted:
  assumes "normalizeAll P raws = Inr normalized" and "mset raws' = mset raws"
  shows "\<exists>normalized'. normalizeAll P raws' = Inr normalized' \<and> mset normalized' = mset normalized"
proof -
  from assms(2) have "set raws' = set raws" by (rule mset_eq_setD)
  with assms(1) show ?thesis
    using mset_dropNulls_map [OF assms(2)] by (auto simp: normalizeAll_Inr)
qed

text \<open>
  On points with valid time values the comparator is negative exactly when the first is
  strictly earlier.
\<close>

lemma compareByTime_valid:
  assumes "timeOf P a \<noteq> None" and "timeOf P b \<noteq> None"
  shows "negative (compareByTime P a b) \<longleftrightarrow> the (timeOf P a) < the (timeOf P b)"
  using assms by (auto simp: compareByTime_def timeOf_def negative_def)

lemma arraySort_by_time:
  assumes valid: "\<forall>p\<in>set xs. timeOf P p \<noteq> None"
  shows "sortedByTime P (arraySort (compareByTime P) xs) \<and>
         (\<forall>t. filter (\<lambda>p. timeOf P p = Some t) (arraySort (compareByTime P) xs) =
              filter (\<lambda>p. timeOf P p = Some t) xs)"
proof -
  let ?k = "\<lambda>p. the (timeOf P p)" and ?out = "arraySort (compareByTime P) xs"
  from valid have "\<forall>a\<in>set xs. \<forall>b\<in>set xs. negative (compareByTime P a b) \<longleftrightarrow> ?k a < ?k b"
    by (simp add: compareByTime_valid)
  from arraySort_keyed [of xs "compareByTime P" ?k, OF this]
  have s: "sorted (map ?k ?out)"
    and f: "\<forall>t. filter (\<lambda>p. ?k p = t) ?out = filter (\<lambda>p. ?k p = t) xs" by simp_all
  have v: "\<forall>p\<in>set ?out. timeOf P p \<noteq> None"
    using valid by (simp add: set_arraySort)
  have leq: "timeLeq P a b" if "a \<in> set ?out" and "b \<in> set ?out" and "?k a \<le> ?k b" for a b
  proof -
    from v that(1) have "timeOf P a \<noteq> None" by (rule bspec)
    moreover from v that(2) have "timeOf P b \<noteq> None" by (rule bspec)
    ultimately obtain x y where "timeOf P a = Some x" and "timeOf P b = Some y" by auto
    with that(3) show ?thesis by (simp add: timeLeq_def)
  qed
  from s have "sorted_wrt (\<lambda>a b. ?k a \<le> ?k b) ?out" by (simp add: sorted_map)
  then have "sorted_wrt (timeLeq P) ?out"
    by (rule sorted_wrt_mono_rel [rotated]) (rule leq)
  moreover have "filter (\<lambda>p. timeOf P p = Some t) ?out = filter (\<lambda>p. timeOf P p = Some t) xs" for t
  proof -
    have "filter (\<lambda>p. timeOf P p = Some t) ?out = filter (\<lambda>p. ?k p = t) ?out"
      using v by (intro filter_cong) auto
    also have "\<dots> = filter (\<lambda>p. ?k p = t) xs" using f by simp
    also have "\<dots> = filter (\<lambda>p. timeOf P p = Some t) xs"
      using valid by (intro filter_cong) auto
    finally show ?thesis .
  qed
  ultimately show ?thesis by (simp add: sortedByTime_def)
qed

text \<open>
  What the series builder achieves where the order is determined.  Whenever it returns a
  series whose points all have a valid time value, the series is sorted non-decreasing by
  time; it holds exactly the surviving points, and the points of each instant are in their
  input order (the sort is stable); and for every permutation of the raw records the builder
  returns a sorted series of the same points.
\<close>

lemma series_sorted_and_stable:
  assumes built: "normalizeAndSort P raws = Inr series"
    and valid: "\<forall>p\<in>set series. timeOf P p \<noteq> None"
  shows "sortedByTime P series \<and>
         (\<exists>normalized. normalizeAll P raws = Inr normalized \<and> mset series = mset normalized \<and>
            (\<forall>t. filter (\<lambda>p. timeOf P p = Some t) series =
                 filter (\<lambda>p. timeOf P p = Some t) normalized)) \<and>
         (\<forall>raws'. mset raws' = mset raws \<longrightarrow>
            (\<exists>series'. normalizeAndSort P raws' = Inr series' \<and> sortedByTime P series' \<and>
                       mset series' = mset series))"
proof -
  from built obtain normalized where n: "normalizeAll P raws = Inr normalized"
    and s: "series = arraySort (compareByTime P) normalized"
    by (auto simp: normalizeAndSort_def split: sum.splits)
  from valid have v: "\<forall>p\<in>set normalized. timeOf P p \<noteq> None"
    by (simp add: s set_arraySort)
  have m: "mset series = mset normalized" by (simp add: s mset_arraySort)
  have perm: "\<exists>series'. normalizeAndSort P raws' = Inr series' \<and> sortedByTime P series' \<and>
                       mset series' = mset series" if p: "mset raws' = mset raws" for raws'
  proof -
    from normalizeAll_permuted [OF n p] obtain normalized'
      where n': "normalizeAll P raws' = Inr normalized'" and m': "mset normalized' = mset normalized"
      by blast
    from m' have "set normalized' = set normalized" by (rule mset_eq_setD)
    with v have "\<forall>p\<in>set normalized'. timeOf P p \<noteq> None" by simp
    from arraySort_by_time [OF this] n' m' m show ?thesis
      by (simp add: normalizeAndSort_def mset_arraySort)
  qed
  from arraySort_by_time [OF v] n m perm show ?thesis
    unfolding s by blast
qed

section \<open>The series and its window on examples\<close>

text \<open>
  The equations that evaluate the series builder on the example records.
\<close>

lemmas series_eval = normalizeAndSort_def normalizeAll_def dropNulls_def map_filter_def
  arraySort_def compareByTime_def negative_def timeOf_def timeLeq_def sortedByTime_def
lemmas raw_eval = rawSeconds_def rawIso_def rawIsoTwin_def rawBadUv_def rawBeyondRange_def
  pointSeconds_def pointIso_def pointIsoTwin_def rawObjTime_def pointObjTime_def

lemma example_series:
  "normalizeAndSort examplePlatform [rawIso, rawIsoTwin, rawBadUv, rawSeconds] =
     Inr [pointSeconds, pointIso, pointIsoTwin]"
  by (simp add: series_eval norm_eval ex_eval raw_eval)

text \<open>
  Four records given out of order, one of them with an unusable UV value and two of them at
  the same instant, and a permutation of them.
\<close>

lemma series_sorted_and_stable_example:
  "normalizeAndSort examplePlatform [rawIso, rawIsoTwin, rawBadUv, rawSeconds] =
     Inr [pointSeconds, pointIso, pointIsoTwin] \<and>
   sortedByTime examplePlatform [pointSeconds, pointIso, pointIsoTwin] \<and>
   filter (\<lambda>p. timeOf examplePlatform p = Some 1700010000000) [pointSeconds, pointIso, pointIsoTwin] =
     [pointIso, pointIsoTwin] \<and>
   (\<exists>series'. normalizeAndSort examplePlatform [rawSeconds, rawBadUv, rawIso, rawIsoTwin] = Inr series' \<and>
      sortedByTime examplePlatform series')"
proof -
  have v: "\<forall>p\<in>set [pointSeconds, pointIso, pointIsoTwin]. timeOf examplePlatform p \<noteq> None"
    by (simp add: timeOf_def ex_eval raw_eval)
  have p: "mset [rawSeconds, rawBadUv, rawIso, rawIsoTwin] = mset [rawIso, rawIsoTwin, rawBadUv, rawSeconds]"
    by simp
  have f: "filter (\<lambda>p. timeOf examplePlatform p = Some 1700010000000) [pointSeconds, pointIso, pointIsoTwin] =
     [pointIso, pointIsoTwin]"
    by (simp add: timeOf_def ex_eval raw_eval)
  from series_sorted_and_stable [OF example_series v] p f example_series
  show ?thesis by blast
qed

text \<open>
  Claim C7: for every collection of raw records the series is sorted by time, stably.  The
  code breaks it.  Given the records \<open>rawIso\<close>, \<open>rawObjTime\<close>, \<open>rawSeconds\<close>, the normalizer
  keeps all three, the second as a point whose time value is not a number.  Against that
  point the comparator returns not-a-number, which the sort reads as equal; so the first
  point compares equal to the second and the second equal to the third, while the third
  compares strictly before the first.  That is no consistent order, and for such a
  comparator \<open>Array.prototype.sort\<close> guarantees no order of the result.
\<close>

theorem invalid_time_breaks_the_order:
  "normalizeAll examplePlatform [rawIso, rawObjTime, rawSeconds] =
     Inr [pointIso, pointObjTime, pointSeconds] \<and>
   timeOf examplePlatform pointObjTime = None \<and>
   compareByTime examplePlatform pointIso pointObjTime = None \<and>
   compareByTime examplePlatform pointObjTime pointSeconds = None \<and>
   compareByTime examplePlatform pointSeconds pointIso = Some (- 10000000)"
  by (simp add: series_eval norm_eval ex_eval raw_eval)

lemma timeLeq_not_negative: "timeLeq P a b \<Longrightarrow> \<not> negative (compareByTime P b a)"
  by (auto simp: timeLeq_def timeOf_def compareByTime_def negative_def split: option.splits)

text \<open>
  Claim C5.  For every non-empty forecast series sorted by time, \<open>getForecast24h\<close> returns
  exactly its first 24 points, or all of them when there are fewer.  The function reads the
  forecast only: no clock is among its inputs, and no point is compared with the current
  time.
\<close>

theorem forecast_window_is_prefix:
  assumes "fc \<noteq> []" and "sortedByTime P fc"
  shows "getForecast24h P fc = take 24 fc"
proof -
  from assms(2) have "sorted_wrt (\<lambda>a b. \<not> negative (compareByTime P b a)) fc"
    unfolding sortedByTime_def
    by (rule sorted_wrt_mono_rel [rotated]) (rule timeLeq_not_negative)
  then have "arraySort (compareByTime P) fc = fc" by (rule arraySort_id)
  with assms(1) show ?thesis
    by (simp add: getForecast24h_def slice_def)
qed

lemma sorted_wrt_replicate: "R x x \<Longrightarrow> sorted_wrt R (replicate n x)"
  by (induction n) auto

text \<open>
  The theorem at a sorted series of 25 points, cut to its first 24, and at one of 2 points,
  returned whole.
\<close>

theorem forecast_window_is_prefix_witness:
  "sortedByTime examplePlatform (pointSeconds # replicate 24 pointIso) \<and>
   getForecast24h examplePlatform (pointSeconds # replicate 24 pointIso) =
     pointSeconds # replicate 23 pointIso \<and>
   getForecast24h examplePlatform [pointSeconds, pointIso] = [pointSeconds, pointIso]"
proof -
  have a: "timeLeq examplePlatform pointSeconds pointIso" "timeLeq examplePlatform pointIso pointIso"
    by (simp_all add: timeLeq_def timeOf_def ex_eval raw_eval)
  then have s: "sortedByTime examplePlatform (pointSeconds # replicate 24 pointIso)"
    by (simp add: sortedByTime_def sorted_wrt_replicate)
  have s2: "sortedByTime examplePlatform [pointSeconds, pointIso]"
    using a by (simp add: sortedByTime_def)
  have ne: "pointSeconds # replicate 24 pointIso \<noteq> []" "[pointSeconds, pointIso] \<noteq> []" by simp_all
  have t: "take 24 (pointSeconds # replicate 24 pointIso) = pointSeconds # replicate 23 pointIso"
    by (simp add: take_Cons')
  from forecast_window_is_prefix [OF ne(1) s] forecast_window_is_prefix [OF ne(2) s2] s t
  show ?thesis by simp
qed

section \<open>Idempotence of timestamps; empty inputs and exceptions\<close>





text \<open>
  No exception leaves \<open>fetchUVData\<close>: the \<open>catch\<close> covers the whole \<open>try\<close> block.
\<close>

lemma fetchUVData_returns: "\<exists>st'. fetchUVData P data st = Inr st'"
  by (simp add: fetchUVData_def Let_def split: sum.splits)

text \<open>
  An empty input gives an empty series, and an empty forecast an empty list of segments.
\<close>

lemma normalizeAndSort_Nil: "normalizeAndSort P [] = Inr []"
  by (simp add: normalizeAndSort_def normalizeAll_def dropNulls_def map_filter_def arraySort_def)

lemma lineSegments_Nil: "lineSegments P [] = []"
  by (simp add: lineSegments_def getForecast24h_def chartData_def splitIntoSegments_def)

text \<open>
  A response whose top-level forecast is the empty array leaves an empty forecast.
\<close>

lemma fetchUVData_empty_array:
  assumes "getProp data ''forecast'' = Some (JArr [])"
  shows "\<exists>st'. fetchUVData P data st = Inr st' \<and> forecast st' = [] \<and>
           lineSegments P (forecast st') = []"
proof -
  from assms have "data \<noteq> JNull" by auto
  with assms show ?thesis
    by (simp add: fetchUVData_def fetchBody_def Let_def normalizeAndSort_Nil truthyOpt_def
        lineSegments_Nil)
qed

text \<open>
  A successful response with no array at the top level, and an empty array or no array in
  the result, leaves an empty forecast.
\<close>

lemma fetchUVData_no_array:
  assumes "truthyOpt (getProp data ''success'')" and "truthyOpt (getProp data ''result'')"
    and "\<not> isArray (getProp data ''forecast'')"
    and "propOpt (getProp data ''result'') ''forecast'' = Some (JArr []) \<or>
         \<not> isArray (propOpt (getProp data ''result'') ''forecast'')"
  shows "\<exists>st'. fetchUVData P data st = Inr st' \<and> forecast st' = [] \<and>
           lineSegments P (forecast st') = []"
proof -
  from assms(1) have nn: "data \<noteq> JNull" by (auto simp: truthyOpt_def)
  from assms(4) show ?thesis
  proof
    assume "propOpt (getProp data ''result'') ''forecast'' = Some (JArr [])"
    with assms(1-3) nn show ?thesis
      by (simp add: fetchUVData_def fetchBody_def Let_def normalizeAndSort_Nil lineSegments_Nil)
  next
    assume "\<not> isArray (propOpt (getProp data ''result'') ''forecast'')"
    with assms(1-3) nn show ?thesis
      by (simp add: fetchUVData_def fetchBody_def Let_def lineSegments_Nil)
  qed
qed

text \<open>
  A response that is not marked successful and holds no array does not reach the series
  builder: the error is set and the forecast held before is kept.
\<close>

lemma failed_response_keeps_forecast:
  assumes "data \<noteq> JNull" and "\<not> truthyOpt (getProp data ''success'')"
    and "\<not> isArray (getProp data ''forecast'')"
  shows "\<exists>st'. fetchUVData P data st = Inr st' \<and> forecast st' = forecast st \<and> error st' \<noteq> None"
  using assms by (simp add: fetchUVData_def fetchBody_def Let_def)

text \<open>
  Claim C9: an empty or missing forecast array gives an empty series and no segments, and
  in all cases the core returns a result and raises no error to its caller.  The first half
  holds for every response with an empty array and for every successful response without
  an array, by the lemmas above; the code breaks the second.  A record with
  the numeric timestamp 1e16 makes \<open>normalizePoint\<close> throw a \<open>RangeError\<close> (the numeric block
  calls \<open>toISOString\<close> on an invalid date, where the string block tests the date first).
  The exception ends the map over the records, the series builder returns nothing, and the
  \<open>catch\<close> of \<open>fetchUVData\<close> reports a connection failure: the valid record of the same
  response is lost and the forecast held before is kept.
\<close>

theorem range_error_fails_the_fetch:
  "normalizePoint examplePlatform rawBeyondRange = Inl RangeError \<and>
   normalizeAndSort examplePlatform [rawIso, rawBeyondRange] = Inl RangeError \<and>
   fetchUVData examplePlatform responseBeyondRange
       \<lparr>forecast = [pointSeconds], error = None, isLoading = False\<rparr> =
     Inr \<lparr>forecast = [pointSeconds], error = Some (JStr ''Failed to connect to UV service''),
          isLoading = False\<rparr>"
  by (simp add: fetchUVData_def fetchBody_def responseBeyondRange_def truthyOpt_def
      series_eval norm_eval ex_eval raw_eval)

end
